theory Spec2Isabelle
  imports Main "HOL-Library.Word" "HOL-Library.Multiset"
begin

section \<open>The cache manager of the TMDB reverse proxy (main.go)\<close>

text \<open>
  The model covers the \<^verbatim>\<open>CacheManager\<close> of \<^verbatim>\<open>main.go\<close>: its constants, the two
  structs, \<^verbatim>\<open>Get\<close>, \<^verbatim>\<open>Set\<close>, \<^verbatim>\<open>checkCacheSize\<close> and \<^verbatim>\<open>cleanExpiredCache\<close>.

  Modelling decisions:
  \<^item> A \<^verbatim>\<open>time.Time\<close> is an integer count of nanoseconds on the process clock, so
    \<^verbatim>\<open>t.After(u)\<close> is \<open>u < t\<close> and \<^verbatim>\<open>t.Add(d)\<close> is \<open>t + d\<close>. Every call of
    \<^verbatim>\<open>time.Now()\<close> is an argument \<open>now\<close> of the operation that makes it.
  \<^item> A \<^verbatim>\<open>[]byte\<close> is a list of 8-bit words; \<^verbatim>\<open>nil\<close> is the empty list.
  \<^item> The Go map is a partial function from keys to entries; \<^verbatim>\<open>len\<close> of the map is the
    cardinality of its domain.
  \<^item> Go leaves the order of a \<^verbatim>\<open>range\<close> over a map unspecified, and it may differ
    from one loop to the next. Each operation that ranges over the map takes the order
    of that loop as a list of keys \<open>ks\<close>; the predicate \<open>range_order\<close> says that the list
    enumerates the keys of the map, each once.
  \<^item> The mutex is held for the whole body of each operation, so an operation is one
    atomic state transformer; \<^verbatim>\<open>log.Printf\<close> is not modelled.
\<close>

subsection \<open>Constants and data\<close>

type_synonym byte = "8 word"
type_synonym time = int

definition CACHE_DURATION :: int where
  "CACHE_DURATION = 10 * (60 * 1000000000)"

definition MAX_CACHE_SIZE :: nat where
  "MAX_CACHE_SIZE = 1000"

record CacheEntry =
  Data :: "byte list"
  Expiry :: time

type_synonym store = "string \<rightharpoonup> CacheEntry"

record CacheManager =
  cache :: store

text \<open>The struct \<^verbatim>\<open>entry\<close> local to \<^verbatim>\<open>checkCacheSize\<close>.\<close>

record entry =
  key :: string
  expiry :: time

definition range_order :: "string list \<Rightarrow> store \<Rightarrow> bool" where
  "range_order ks m \<longleftrightarrow> distinct ks \<and> set ks = dom m"

subsection \<open>Operations\<close>

definition NewCacheManager :: CacheManager where
  "NewCacheManager = \<lparr>cache = Map.empty\<rparr>"

text \<open>\<^verbatim>\<open>Get\<close> returns its two results and the manager it leaves behind.\<close>

definition Get :: "time \<Rightarrow> string \<Rightarrow> CacheManager \<Rightarrow> (byte list \<times> bool) \<times> CacheManager" where
  "Get now k cm =
     (case cache cm k of
        None \<Rightarrow> (([], False), cm)
      | Some e \<Rightarrow>
          if Expiry e < now then (([], False), cm)
          else ((Data e, True), cm))"

text \<open>The first loop of \<^verbatim>\<open>checkCacheSize\<close>: one \<^verbatim>\<open>entry\<close> for each key the range yields.\<close>

definition collect :: "string list \<Rightarrow> store \<Rightarrow> entry list" where
  "collect ks m =
     concat (map (\<lambda>k. case m k of None \<Rightarrow> [] | Some val \<Rightarrow> [\<lparr>key = k, expiry = Expiry val\<rparr>]) ks)"

text \<open>The body of the inner sorting loop: swap positions \<open>i\<close> and \<open>j\<close> when out of order.\<close>

definition swap_step :: "nat \<Rightarrow> nat \<Rightarrow> entry list \<Rightarrow> entry list" where
  "swap_step i j es =
     (if expiry (es ! j) < expiry (es ! i) then es[i := es ! j, j := es ! i] else es)"

text \<open>\<^verbatim>\<open>for j := i + 1; j < len(entries); j++\<close>\<close>

definition inner_loop :: "nat \<Rightarrow> entry list \<Rightarrow> entry list" where
  "inner_loop i es = fold (swap_step i) [i + 1 ..< length es] es"

text \<open>The inner loop stopped when \<open>j\<close> reaches \<open>m\<close>, to state its invariant.\<close>

definition inner_upto :: "nat \<Rightarrow> nat \<Rightarrow> entry list \<Rightarrow> entry list" where
  "inner_upto i m es = fold (swap_step i) [i + 1 ..< m] es"

text \<open>\<^verbatim>\<open>for i := 0; i < len(entries)-1; i++\<close>\<close>

definition sort_entries :: "entry list \<Rightarrow> entry list" where
  "sort_entries es = fold inner_loop [0 ..< length es - 1] es"

text \<open>\<^verbatim>\<open>for i := 0; i < deleteCount; i++ { delete(cm.cache, entries[i].key) }\<close>\<close>

definition delete_oldest :: "nat \<Rightarrow> entry list \<Rightarrow> store \<Rightarrow> store" where
  "delete_oldest deleteCount entries m =
     fold (\<lambda>i m'. m'(key (entries ! i) := None)) [0 ..< deleteCount] m"

definition checkCacheSize :: "string list \<Rightarrow> CacheManager \<Rightarrow> CacheManager" where
  "checkCacheSize ks cm =
     (if card (dom (cache cm)) \<le> MAX_CACHE_SIZE then cm
      else
        let entries = sort_entries (collect ks (cache cm));
            deleteCount = card (dom (cache cm)) - MAX_CACHE_SIZE
        in cm\<lparr>cache := delete_oldest deleteCount entries (cache cm)\<rparr>)"

definition Set :: "string list \<Rightarrow> time \<Rightarrow> string \<Rightarrow> byte list \<Rightarrow> CacheManager \<Rightarrow> CacheManager" where
  "Set ks now k data cm =
     (let cm' = checkCacheSize ks cm
      in cm'\<lparr>cache := (cache cm')(k \<mapsto> \<lparr>Data = data, Expiry = now + CACHE_DURATION\<rparr>)\<rparr>)"

text \<open>
  The sweep deletes the key at hand while ranging, which Go allows: a deleted entry is
  not produced again, and no entry is added.
\<close>

definition cleanExpiredCache :: "string list \<Rightarrow> time \<Rightarrow> CacheManager \<Rightarrow> CacheManager" where
  "cleanExpiredCache ks now cm =
     cm\<lparr>cache :=
       fold (\<lambda>k m. case m k of
                     None \<Rightarrow> m
                   | Some e \<Rightarrow> if Expiry e < now then m(k := None) else m)
            ks (cache cm)\<rparr>"

subsection \<open>Sequences of calls\<close>

text \<open>
  The handler calls \<^verbatim>\<open>Get\<close> and \<^verbatim>\<open>Set\<close>, the ticker of \<^verbatim>\<open>startCleanup\<close> calls
  \<^verbatim>\<open>cleanExpiredCache\<close>; the lock serialises them. A history of the manager is a list
  of calls, each with the clock reading it gets and, where it ranges over the map, the
  order of that range.
\<close>

datatype call =
    CallSet "string list" time string "byte list"
  | CallGet time string
  | CallSweep "string list" time

fun exec :: "CacheManager \<Rightarrow> call \<Rightarrow> CacheManager" where
  "exec cm (CallSet ks now k data) = Set ks now k data cm"
| "exec cm (CallGet now k) = snd (Get now k cm)"
| "exec cm (CallSweep ks now) = cleanExpiredCache ks now cm"

definition run :: "CacheManager \<Rightarrow> call list \<Rightarrow> CacheManager" where
  "run cm cs = foldl exec cm cs"

text \<open>Every range of the history enumerates the map as it is when the loop starts.\<close>

fun ranges_ok :: "CacheManager \<Rightarrow> call list \<Rightarrow> bool" where
  "ranges_ok cm [] = True"
| "ranges_ok cm (CallSet ks now k data # cs) =
     (range_order ks (cache cm) \<and> ranges_ok (Set ks now k data cm) cs)"
| "ranges_ok cm (CallGet now k # cs) = ranges_ok cm cs"
| "ranges_ok cm (CallSweep ks now # cs) =
     (range_order ks (cache cm) \<and> ranges_ok (cleanExpiredCache ks now cm) cs)"

subsection \<open>Notions used in the proofs\<close>

text \<open>
  The outer sorting loop after \<open>n\<close> rounds, the invariant of that loop (the first \<open>n\<close>
  positions hold entries no later than everything after them), and the set of keys the
  deleting loop removes from a store over capacity.
\<close>

definition outer_upto :: "nat \<Rightarrow> entry list \<Rightarrow> entry list" where
  "outer_upto n es = fold inner_loop [0 ..< n] es"

definition sorted_upto :: "nat \<Rightarrow> entry list \<Rightarrow> bool" where
  "sorted_upto n es \<longleftrightarrow>
     (\<forall>a b. a < n \<and> a < b \<and> b < length es \<longrightarrow> expiry (es ! a) \<le> expiry (es ! b))"

definition evicted :: "string list \<Rightarrow> store \<Rightarrow> string set" where
  "evicted ks m =
     key ` set (take (card (dom m) - MAX_CACHE_SIZE) (sort_entries (collect ks m)))"

subsection \<open>A concrete history: distinct keys at increasing times\<close>

text \<open>
  The \<open>i\<close>-th call of \<open>fresh_calls n\<close> is a \<^verbatim>\<open>Set\<close> of a new key at clock reading \<open>i\<close>;
  its range order lists the keys then in the store, oldest first.
\<close>

definition key_of :: "nat \<Rightarrow> string" where
  "key_of i = replicate i CHR ''k''"

definition payload_of :: "nat \<Rightarrow> byte list" where
  "payload_of i = [of_nat i]"

definition fresh_calls :: "nat \<Rightarrow> call list" where
  "fresh_calls n =
     map (\<lambda>i. CallSet (map key_of [i - Suc MAX_CACHE_SIZE ..< i]) (int i) (key_of i) (payload_of i)) [0 ..< n]"

definition fresh_store :: "nat \<Rightarrow> nat \<Rightarrow> store" where
  "fresh_store lo n =
     (\<lambda>k. if lo \<le> length k \<and> length k < n \<and> k = key_of (length k)
          then Some \<lparr>Data = payload_of (length k), Expiry = int (length k) + CACHE_DURATION\<rparr> else None)"

subsection \<open>Insertion times\<close>

text \<open>
  The store does not record when an entry was inserted. The map \<open>insertion_time g cs\<close>
  is the bookkeeping of a history: the clock reading of the latest \<^verbatim>\<open>Set\<close> of each
  key, starting from \<open>g\<close>. The predicate \<open>fixed_ttl\<close> says that every entry of the store
  expires \<^verbatim>\<open>CACHE_DURATION\<close> after that reading.
\<close>

fun note_insert :: "(string \<rightharpoonup> time) \<Rightarrow> call \<Rightarrow> (string \<rightharpoonup> time)" where
  "note_insert g (CallSet ks now k data) = g(k \<mapsto> now)"
| "note_insert g (CallGet now k) = g"
| "note_insert g (CallSweep ks now) = g"

definition insertion_time :: "(string \<rightharpoonup> time) \<Rightarrow> call list \<Rightarrow> (string \<rightharpoonup> time)" where
  "insertion_time g cs = foldl note_insert g cs"

definition fixed_ttl :: "(string \<rightharpoonup> time) \<Rightarrow> CacheManager \<Rightarrow> bool" where
  "fixed_ttl g cm \<longleftrightarrow>
     (\<forall>k e. cache cm k = Some e \<longrightarrow> (\<exists>t. g k = Some t \<and> Expiry e = t + CACHE_DURATION))"

section \<open>The sorting loops\<close>

lemma length_swap_step [simp]: "length (swap_step i j es) = length es"
  by (simp add: swap_step_def)

lemma mset_swap_step:
  "i < length es \<Longrightarrow> j < length es \<Longrightarrow> mset (swap_step i j es) = mset es"
  by (simp add: swap_step_def mset_swap)

lemma swap_step_below:
  "l < i \<Longrightarrow> i < j \<Longrightarrow> swap_step i j es ! l = es ! l"
  by (simp add: swap_step_def)

lemma swap_step_at:
  assumes "i < j" "j < length es"
  shows "expiry (swap_step i j es ! i) \<le> expiry (es ! i)"
    and "expiry (swap_step i j es ! i) \<le> expiry (es ! j)"
  using assms by (simp_all add: swap_step_def)

lemma swap_step_from:
  assumes "i < j" "j < length es" "i \<le> l" "l < length es"
  shows "\<exists>l'. i \<le> l' \<and> l' < length es \<and> swap_step i j es ! l = es ! l'"
proof (cases "expiry (es ! j) < expiry (es ! i)")
  case False
  then show ?thesis using assms by (auto simp: swap_step_def)
next
  case True
  consider "l = i" | "l = j" | "l \<noteq> i" "l \<noteq> j" by blast
  then show ?thesis
  proof cases
    case 1
    then show ?thesis using True assms by (auto simp: swap_step_def intro!: exI[of _ j])
  next
    case 2
    then show ?thesis using True assms by (auto simp: swap_step_def intro!: exI[of _ i])
  next
    case 3
    then show ?thesis using True assms by (auto simp: swap_step_def intro!: exI[of _ l])
  qed
qed

lemma inner_upto_Suc:
  "i < m \<Longrightarrow> inner_upto i (Suc m) es = swap_step i m (inner_upto i m es)"
  by (simp add: inner_upto_def)

lemma inner_upto_base: "m \<le> Suc i \<Longrightarrow> inner_upto i m es = es"
  by (simp add: inner_upto_def)

lemma length_inner_upto [simp]: "length (inner_upto i m es) = length es"
  by (induction m) (simp_all add: inner_upto_def)

lemma mset_inner_upto:
  "m \<le> length es \<Longrightarrow> mset (inner_upto i m es) = mset es"
proof (induction m)
  case 0
  then show ?case by (simp add: inner_upto_base)
next
  case (Suc m)
  show ?case
  proof (cases "i < m")
    case True
    then show ?thesis using Suc by (simp add: inner_upto_Suc mset_swap_step)
  next
    case False
    then show ?thesis by (simp add: inner_upto_base)
  qed
qed

lemma inner_upto_below:
  "l < i \<Longrightarrow> inner_upto i m es ! l = es ! l"
proof (induction m)
  case 0
  then show ?case by (simp add: inner_upto_base)
next
  case (Suc m)
  show ?case
  proof (cases "i < m")
    case True
    then show ?thesis using Suc by (simp add: inner_upto_Suc swap_step_below)
  next
    case False
    then show ?thesis by (simp add: inner_upto_base)
  qed
qed

lemma inner_upto_min:
  "m \<le> length es \<Longrightarrow> i < l \<Longrightarrow> l < m \<Longrightarrow>
     expiry (inner_upto i m es ! i) \<le> expiry (inner_upto i m es ! l)"
proof (induction m)
  case 0
  then show ?case by simp
next
  case (Suc m)
  let ?r = "inner_upto i m es"
  have im: "i < m" using Suc.prems by simp
  have ml: "m < length ?r" using Suc.prems by simp
  have step: "inner_upto i (Suc m) es = swap_step i m ?r"
    using im by (rule inner_upto_Suc)
  show ?case
  proof (cases "l = m")
    case True
    have "expiry (swap_step i m ?r ! i) \<le> expiry (swap_step i m ?r ! m)"
      using im ml by (simp add: swap_step_def)
    then show ?thesis using True step by simp
  next
    case False
    then have lm: "l < m" using Suc.prems by simp
    have ih: "expiry (?r ! i) \<le> expiry (?r ! l)" using Suc lm by simp
    have "swap_step i m ?r ! l = ?r ! l"
      using lm Suc.prems by (simp add: swap_step_def)
    moreover have "expiry (swap_step i m ?r ! i) \<le> expiry (?r ! i)"
      using swap_step_at(1)[OF im ml] .
    ultimately show ?thesis using ih step by simp
  qed
qed

lemma inner_upto_from:
  "m \<le> length es \<Longrightarrow> i \<le> l \<Longrightarrow> l < length es \<Longrightarrow>
     \<exists>l'. i \<le> l' \<and> l' < length es \<and> inner_upto i m es ! l = es ! l'"
proof (induction m arbitrary: l)
  case 0
  then show ?case by (auto simp: inner_upto_base)
next
  case (Suc m)
  show ?case
  proof (cases "i < m")
    case False
    then show ?thesis using Suc.prems by (auto simp: inner_upto_base)
  next
    case True
    let ?r = "inner_upto i m es"
    have ml: "m < length ?r" using Suc.prems by simp
    have ll: "l < length ?r" using Suc.prems by simp
    obtain l1 where l1: "i \<le> l1" "l1 < length ?r" "swap_step i m ?r ! l = ?r ! l1"
      using swap_step_from[OF True ml Suc.prems(2) ll] by blast
    obtain l2 where "i \<le> l2" "l2 < length es" "?r ! l1 = es ! l2"
      using Suc.IH[of l1] Suc.prems l1 by auto
    then show ?thesis using l1 True by (auto simp: inner_upto_Suc)
  qed
qed

lemma inner_loop_upto: "inner_loop i es = inner_upto i (length es) es"
  by (simp add: inner_loop_def inner_upto_def)

lemma length_inner_loop [simp]: "length (inner_loop i es) = length es"
  by (simp add: inner_loop_upto)

lemma mset_inner_loop [simp]: "mset (inner_loop i es) = mset es"
  by (simp add: inner_loop_upto mset_inner_upto)

lemma outer_upto_Suc: "outer_upto (Suc n) es = inner_loop n (outer_upto n es)"
  by (simp add: outer_upto_def)

lemma length_outer_upto [simp]: "length (outer_upto n es) = length es"
  by (induction n) (simp_all add: outer_upto_def)

lemma mset_outer_upto [simp]: "mset (outer_upto n es) = mset es"
  by (induction n) (simp_all add: outer_upto_def)

lemma sorted_upto_inner_loop:
  assumes inv: "sorted_upto n es" and n: "n < length es"
  shows "sorted_upto (Suc n) (inner_loop n es)"
  unfolding sorted_upto_def
proof (intro allI impI)
  fix a b
  let ?r = "inner_loop n es"
  assume h: "a < Suc n \<and> a < b \<and> b < length ?r"
  then have b: "b < length es" by simp
  show "expiry (?r ! a) \<le> expiry (?r ! b)"
  proof (cases "a = n")
    case True
    then show ?thesis
      using h b inner_upto_min[of "length es" es n b] by (simp add: inner_loop_upto)
  next
    case False
    then have a: "a < n" using h by simp
    have ra: "?r ! a = es ! a" using a by (simp add: inner_loop_upto inner_upto_below)
    show ?thesis
    proof (cases "b < n")
      case True
      then have "?r ! b = es ! b" by (simp add: inner_loop_upto inner_upto_below)
      then show ?thesis using ra inv a h b by (simp add: sorted_upto_def)
    next
      case False
      then have "n \<le> b" by simp
      then obtain l where l: "n \<le> l" "l < length es" "?r ! b = es ! l"
        using inner_upto_from[of "length es" es n b] b by (auto simp: inner_loop_upto)
      then show ?thesis using ra inv a by (simp add: sorted_upto_def)
    qed
  qed
qed

lemma sorted_upto_outer: "n \<le> length es \<Longrightarrow> sorted_upto n (outer_upto n es)"
proof (induction n)
  case 0
  then show ?case by (simp add: sorted_upto_def)
next
  case (Suc n)
  then show ?case by (simp add: outer_upto_Suc sorted_upto_inner_loop)
qed

lemma sort_entries_outer: "sort_entries es = outer_upto (length es - 1) es"
  by (simp add: sort_entries_def outer_upto_def)

lemma length_sort_entries [simp]: "length (sort_entries es) = length es"
  by (simp add: sort_entries_outer)

lemma mset_sort_entries [simp]: "mset (sort_entries es) = mset es"
  by (simp add: sort_entries_outer)

lemma set_sort_entries [simp]: "set (sort_entries es) = set es"
  using mset_sort_entries[of es] by (metis set_mset_mset)

lemma sort_entries_nth_le:
  assumes "a < b" "b < length es"
  shows "expiry (sort_entries es ! a) \<le> expiry (sort_entries es ! b)"
proof -
  have "sorted_upto (length es - 1) (sort_entries es)"
    by (simp add: sort_entries_outer sorted_upto_outer)
  moreover have "a < length es - 1" using assms by simp
  ultimately show ?thesis using assms by (simp add: sorted_upto_def)
qed

lemma sorted_sort_entries: "sorted_wrt (\<lambda>x y. expiry x \<le> expiry y) (sort_entries es)"
  by (simp add: sorted_wrt_iff_nth_less sort_entries_nth_le)

lemma collect_Cons:
  "collect (k # ks) m =
     (case m k of None \<Rightarrow> [] | Some val \<Rightarrow> [\<lparr>key = k, expiry = Expiry val\<rparr>]) @ collect ks m"
  by (simp add: collect_def)

lemma collect_Nil [simp]: "collect [] m = []"
  by (simp add: collect_def)

lemma map_key_collect: "set ks \<subseteq> dom m \<Longrightarrow> map key (collect ks m) = ks"
  by (induction ks) (auto simp: collect_Cons)

lemma collect_sound:
  "e \<in> set (collect ks m) \<Longrightarrow> \<exists>val. m (key e) = Some val \<and> expiry e = Expiry val"
proof (induction ks)
  case Nil
  then show ?case by simp
next
  case (Cons k ks)
  show ?case
  proof (cases "m k")
    case None
    then show ?thesis using Cons by (simp add: collect_Cons)
  next
    case (Some val)
    then show ?thesis using Cons by (auto simp: collect_Cons)
  qed
qed

lemma delete_oldest_Suc:
  "delete_oldest (Suc d) es m = (delete_oldest d es m)(key (es ! d) := None)"
  by (simp add: delete_oldest_def)

lemma delete_oldest_eq:
  "d \<le> length es \<Longrightarrow>
     delete_oldest d es m = (\<lambda>k. if k \<in> key ` set (take d es) then None else m k)"
proof (induction d)
  case 0
  then show ?case by (simp add: delete_oldest_def)
next
  case (Suc d)
  then have "take (Suc d) es = take d es @ [es ! d]"
    by (simp add: take_Suc_conv_app_nth)
  then show ?case using Suc by (auto simp: delete_oldest_Suc fun_eq_iff)
qed

lemma delete_oldest_le: "delete_oldest d es m \<subseteq>\<^sub>m m"
  by (induction d) (auto simp: delete_oldest_Suc delete_oldest_def map_le_def dom_def)

text \<open>Facts about the sorted entry list of a well-enumerated store.\<close>

lemma sorted_collect_keys:
  assumes "range_order ks m"
  shows "distinct (map key (sort_entries (collect ks m)))"
    and "set (map key (sort_entries (collect ks m))) = dom m"
    and "length (sort_entries (collect ks m)) = card (dom m)"
proof -
  let ?S = "sort_entries (collect ks m)"
  have ks: "distinct ks" "set ks = dom m" using assms by (simp_all add: range_order_def)
  have "mset (map key ?S) = mset (map key (collect ks m))"
    by simp
  also have "\<dots> = mset ks" using ks by (simp add: map_key_collect)
  finally have m: "mset (map key ?S) = mset ks" .
  show "distinct (map key ?S)" using m ks(1) by (metis mset_eq_imp_distinct_iff)
  show "set (map key ?S) = dom m" using m ks(2) by (metis mset_eq_setD)
  have "length ?S = length ks" using m by (metis length_map mset_eq_length)
  then show "length ?S = card (dom m)" using ks by (metis distinct_card)
qed

lemma checkCacheSize_small:
  "card (dom (cache cm)) \<le> MAX_CACHE_SIZE \<Longrightarrow> checkCacheSize ks cm = cm"
  by (simp add: checkCacheSize_def)

lemma cache_checkCacheSize_big:
  assumes "range_order ks (cache cm)" and "MAX_CACHE_SIZE < card (dom (cache cm))"
  shows "cache (checkCacheSize ks cm) =
           (\<lambda>k. if k \<in> evicted ks (cache cm) then None else cache cm k)"
proof -
  have "card (dom (cache cm)) - MAX_CACHE_SIZE \<le> length (sort_entries (collect ks (cache cm)))"
    using sorted_collect_keys(3)[OF assms(1)] by simp
  then show ?thesis
    using assms(2) by (simp add: checkCacheSize_def Let_def delete_oldest_eq evicted_def)
qed

lemma evicted_subset:
  assumes "range_order ks m"
  shows "evicted ks m \<subseteq> dom m"
proof -
  have "evicted ks m \<subseteq> set (map key (sort_entries (collect ks m)))"
    unfolding evicted_def by (auto dest: in_set_takeD)
  then show ?thesis using sorted_collect_keys(2)[OF assms] by simp
qed

lemma card_evicted:
  assumes "range_order ks m"
  shows "card (evicted ks m) = card (dom m) - MAX_CACHE_SIZE"
proof -
  let ?S = "sort_entries (collect ks m)"
  let ?d = "card (dom m) - MAX_CACHE_SIZE"
  have "evicted ks m = set (take ?d (map key ?S))"
    by (simp add: evicted_def take_map)
  moreover have "distinct (take ?d (map key ?S))"
    using sorted_collect_keys(1)[OF assms] by (rule distinct_take)
  ultimately have "card (evicted ks m) = length (take ?d (map key ?S))"
    by (simp add: distinct_card)
  then show ?thesis using sorted_collect_keys(3)[OF assms] by simp
qed

lemma evicted_oldest:
  assumes ro: "range_order ks m"
    and k: "k \<in> evicted ks m" "m k = Some e"
    and k': "k' \<notin> evicted ks m" "m k' = Some e'"
  shows "Expiry e \<le> Expiry e'"
proof -
  let ?S = "sort_entries (collect ks m)"
  let ?d = "card (dom m) - MAX_CACHE_SIZE"
  have len: "length ?S = card (dom m)" using sorted_collect_keys(3)[OF ro] .
  obtain a where a: "a < ?d" "a < length ?S" "k = key (?S ! a)"
    using k(1) by (auto simp: evicted_def in_set_conv_nth)
  have "k' \<in> set (map key ?S)"
    using k'(2) sorted_collect_keys(2)[OF ro] by auto
  then obtain b where "b < length (map key ?S)" "map key ?S ! b = k'"
    by (metis in_set_conv_nth)
  then have b: "b < length ?S" "k' = key (?S ! b)" by simp_all
  have "\<not> b < ?d"
  proof
    assume "b < ?d"
    then have "?S ! b \<in> set (take ?d ?S)"
      using b(1) by (auto simp: in_set_conv_nth intro!: exI[of _ b])
    then show False using k'(1) b(2) by (simp add: evicted_def)
  qed
  then have ab: "a < b" using a(1) by simp
  have le: "expiry (?S ! a) \<le> expiry (?S ! b)"
    using sort_entries_nth_le[of a b "collect ks m"] ab b(1) by simp
  have "?S ! a \<in> set (collect ks m)" using a(2) by (metis nth_mem set_sort_entries)
  then have ea: "expiry (?S ! a) = Expiry e"
    using collect_sound[of "?S ! a" ks m] a(3) k(2) by auto
  have "?S ! b \<in> set (collect ks m)" using b(1) by (metis nth_mem set_sort_entries)
  then have eb: "expiry (?S ! b) = Expiry e'"
    using collect_sound[of "?S ! b" ks m] b(2) k'(2) by auto
  show ?thesis using le ea eb by simp
qed

lemma range_order_finite: "range_order ks m \<Longrightarrow> finite (dom m)"
  by (metis range_order_def List.finite_set)

lemma checkCacheSize_le: "cache (checkCacheSize ks cm) \<subseteq>\<^sub>m cache cm"
  by (simp add: checkCacheSize_def Let_def delete_oldest_le)

lemma card_checkCacheSize:
  assumes "range_order ks (cache cm)"
  shows "card (dom (cache (checkCacheSize ks cm))) = min (card (dom (cache cm))) MAX_CACHE_SIZE"
proof (cases "card (dom (cache cm)) \<le> MAX_CACHE_SIZE")
  case True
  then show ?thesis by (simp add: checkCacheSize_small)
next
  case False
  then have big: "MAX_CACHE_SIZE < card (dom (cache cm))" by simp
  let ?m = "cache cm"
  have "dom (cache (checkCacheSize ks cm)) = dom ?m - evicted ks ?m"
    by (auto simp: cache_checkCacheSize_big[OF assms big] split: if_splits)
  then have "card (dom (cache (checkCacheSize ks cm))) = card (dom ?m) - card (evicted ks ?m)"
    using evicted_subset[OF assms] range_order_finite[OF assms]
    by (simp add: card_Diff_subset finite_subset)
  then show ?thesis using big by (simp add: card_evicted[OF assms])
qed

lemma sweep_fold:
  "fold (\<lambda>k m. case m k of None \<Rightarrow> m
                | Some e \<Rightarrow> if Expiry e < now then m(k := None) else m) ks m =
     (\<lambda>k. if k \<in> set ks
          then (case m k of None \<Rightarrow> None | Some e \<Rightarrow> if Expiry e < now then None else Some e)
          else m k)"
proof (induction ks arbitrary: m)
  case Nil
  show ?case by simp
next
  case (Cons a ks)
  show ?case
    by (simp add: Cons.IH fun_eq_iff split: option.splits)
qed

lemma cache_cleanExpiredCache:
  assumes "set ks = dom (cache cm)"
  shows "cache (cleanExpiredCache ks now cm) =
           (\<lambda>k. case cache cm k of None \<Rightarrow> None
                 | Some e \<Rightarrow> if Expiry e < now then None else Some e)"
  using assms by (auto simp: cleanExpiredCache_def sweep_fold fun_eq_iff split: option.splits)

lemma cleanExpiredCache_le: "cache (cleanExpiredCache ks now cm) \<subseteq>\<^sub>m cache cm"
  by (auto simp: cleanExpiredCache_def sweep_fold map_le_def dom_def split: option.splits if_splits)

lemma length_key_of [simp]: "length (key_of i) = i"
  by (simp add: key_of_def)

lemma key_of_inj [simp]: "key_of i = key_of j \<longleftrightarrow> i = j"
  by (metis length_key_of)

lemma dom_fresh_store: "dom (fresh_store lo n) = key_of ` {lo ..< n}"
  by (auto simp: fresh_store_def dom_def)

lemma card_fresh_store: "card (dom (fresh_store lo n)) = n - lo"
proof -
  have "inj_on key_of {lo ..< n}" by (simp add: inj_on_def)
  then show ?thesis by (simp add: dom_fresh_store card_image)
qed

lemma fresh_store_key: "fresh_store lo n (key_of i) =
    (if lo \<le> i \<and> i < n then Some \<lparr>Data = payload_of i, Expiry = int i + CACHE_DURATION\<rparr> else None)"
  by (simp add: fresh_store_def)

lemma range_order_fresh: "range_order (map key_of [lo ..< n]) (fresh_store lo n)"
  by (simp add: range_order_def dom_fresh_store distinct_map inj_on_def)

lemma evicted_fresh:
  assumes "Suc MAX_CACHE_SIZE \<le> n"
  shows "evicted (map key_of [n - Suc MAX_CACHE_SIZE ..< n])
           (fresh_store (n - Suc MAX_CACHE_SIZE) n) = {key_of (n - Suc MAX_CACHE_SIZE)}"
proof -
  let ?lo = "n - Suc MAX_CACHE_SIZE"
  let ?m = "fresh_store ?lo n"
  let ?E = "evicted (map key_of [?lo ..< n]) ?m"
  have ro: "range_order (map key_of [?lo ..< n]) ?m" by (rule range_order_fresh)
  have "card ?E = 1"
    using assms by (simp add: card_evicted[OF ro] card_fresh_store)
  then obtain k where E: "?E = {k}" by (auto simp: card_1_singleton_iff)
  have "k \<in> dom ?m" using evicted_subset[OF ro] E by auto
  then obtain i where i: "?lo \<le> i" "i < n" "k = key_of i"
    by (auto simp: dom_fresh_store)
  have "i = ?lo"
  proof (rule ccontr)
    assume ne: "i \<noteq> ?lo"
    then have "key_of ?lo \<notin> ?E" using E i by simp
    moreover have "?m (key_of ?lo) = Some \<lparr>Data = payload_of ?lo, Expiry = int ?lo + CACHE_DURATION\<rparr>"
      using assms by (simp add: fresh_store_key)
    moreover have "?m k = Some \<lparr>Data = payload_of i, Expiry = int i + CACHE_DURATION\<rparr>"
      using i by (simp add: fresh_store_key)
    moreover have "k \<in> ?E" using E by simp
    ultimately have "Expiry \<lparr>Data = payload_of i, Expiry = int i + CACHE_DURATION\<rparr>
        \<le> Expiry \<lparr>Data = payload_of ?lo, Expiry = int ?lo + CACHE_DURATION\<rparr>"
      using evicted_oldest[OF ro] by blast
    then show False using i ne by simp
  qed
  then show ?thesis using E i by simp
qed

lemma Set_fresh:
  "Set (map key_of [n - Suc MAX_CACHE_SIZE ..< n]) (int n) (key_of n) (payload_of n)
       \<lparr>cache = fresh_store (n - Suc MAX_CACHE_SIZE) n\<rparr>
     = \<lparr>cache = fresh_store (Suc n - Suc MAX_CACHE_SIZE) (Suc n)\<rparr>"
proof (cases "n \<le> MAX_CACHE_SIZE")
  case True
  then have lo: "n - Suc MAX_CACHE_SIZE = 0" "Suc n - Suc MAX_CACHE_SIZE = 0" by simp_all
  have small: "card (dom (fresh_store 0 n)) \<le> MAX_CACHE_SIZE"
    using True by (simp add: card_fresh_store)
  have "(fresh_store 0 n)(key_of n \<mapsto> \<lparr>Data = payload_of n, Expiry = int n + CACHE_DURATION\<rparr>)
          = fresh_store 0 (Suc n)"
    by (auto simp: fresh_store_def fun_eq_iff less_Suc_eq)
  then have "Set (map key_of [0 ..< n]) (int n) (key_of n) (payload_of n) \<lparr>cache = fresh_store 0 n\<rparr>
               = \<lparr>cache = fresh_store 0 (Suc n)\<rparr>"
    using small by (simp add: Set_def Let_def checkCacheSize_small)
  then show ?thesis unfolding lo .
next
  case False
  then have big: "Suc MAX_CACHE_SIZE \<le> n" by simp
  let ?lo = "n - Suc MAX_CACHE_SIZE"
  let ?cm = "\<lparr>cache = fresh_store ?lo n\<rparr>"
  have ro: "range_order (map key_of [?lo ..< n]) (cache ?cm)"
    by (simp add: range_order_fresh)
  have sz: "MAX_CACHE_SIZE < card (dom (cache ?cm))"
    using big by (simp add: card_fresh_store)
  have lo': "Suc n - Suc MAX_CACHE_SIZE = Suc ?lo" using big by simp
  have c: "cache (checkCacheSize (map key_of [?lo ..< n]) ?cm) =
             (\<lambda>k. if k = key_of ?lo then None else fresh_store ?lo n k)"
    using cache_checkCacheSize_big[OF ro sz] evicted_fresh[OF big] by (simp cong: if_cong)
  have "(\<lambda>k. if k = key_of ?lo then None else fresh_store ?lo n k)
           (key_of n \<mapsto> \<lparr>Data = payload_of n, Expiry = int n + CACHE_DURATION\<rparr>)
          = fresh_store (Suc ?lo) (Suc n)"
  proof (rule ext)
    fix k
    show "((\<lambda>k. if k = key_of ?lo then None else fresh_store ?lo n k)
             (key_of n \<mapsto> \<lparr>Data = payload_of n, Expiry = int n + CACHE_DURATION\<rparr>)) k
            = fresh_store (Suc ?lo) (Suc n) k"
    proof (cases "k = key_of (length k)")
      case False
      then have "k \<noteq> key_of n" by auto
      then show ?thesis using False by (simp add: fresh_store_def)
    next
      case True
      then obtain i where "k = key_of i" by blast
      then show ?thesis using big by (auto simp: fresh_store_key)
    qed
  qed
  then have "cache (Set (map key_of [?lo ..< n]) (int n) (key_of n) (payload_of n) ?cm) =
               fresh_store (Suc ?lo) (Suc n)"
    using c by (simp add: Set_def Let_def)
  then show ?thesis
    unfolding lo' by (simp add: Set_def Let_def checkCacheSize_def)
qed

lemma fresh_calls_Suc:
  "fresh_calls (Suc n) =
     fresh_calls n @ [CallSet (map key_of [n - Suc MAX_CACHE_SIZE ..< n]) (int n) (key_of n) (payload_of n)]"
  by (simp add: fresh_calls_def)

lemma run_fresh_calls:
  "run NewCacheManager (fresh_calls n) = \<lparr>cache = fresh_store (n - Suc MAX_CACHE_SIZE) n\<rparr>"
proof (induction n)
  case 0
  show ?case by (simp add: run_def fresh_calls_def NewCacheManager_def fresh_store_def)
next
  case (Suc n)
  have "run NewCacheManager (fresh_calls (Suc n)) =
          Set (map key_of [n - Suc MAX_CACHE_SIZE ..< n]) (int n) (key_of n) (payload_of n)
            (run NewCacheManager (fresh_calls n))"
    by (simp add: fresh_calls_Suc run_def)
  then show ?case by (simp only: Suc.IH Set_fresh)
qed

lemma snd_Get [simp]: "snd (Get now k cm) = cm"
  by (simp add: Get_def split: option.splits)

lemma ranges_ok_append:
  "ranges_ok cm (cs @ [c]) \<longleftrightarrow>
     ranges_ok cm cs \<and> ranges_ok (run cm cs) [c]"
  by (induction cm cs rule: ranges_ok.induct) (simp_all add: run_def)

lemma ranges_ok_fresh_calls: "ranges_ok NewCacheManager (fresh_calls n)"
proof (induction n)
  case 0
  show ?case by (simp add: fresh_calls_def)
next
  case (Suc n)
  then show ?case
    by (simp add: fresh_calls_Suc ranges_ok_append run_fresh_calls range_order_fresh)
qed

section \<open>Histories\<close>

lemma cache_Set:
  "cache (Set ks now k data cm) =
     (cache (checkCacheSize ks cm))(k \<mapsto> \<lparr>Data = data, Expiry = now + CACHE_DURATION\<rparr>)"
  by (simp add: Set_def Let_def)

lemma fresh_1001:
  "run NewCacheManager (fresh_calls 1001) = \<lparr>cache = fresh_store 0 1001\<rparr>"
  by (simp add: run_fresh_calls MAX_CACHE_SIZE_def)

lemma map_le_Some: "m' \<subseteq>\<^sub>m m \<Longrightarrow> m' k = Some e \<Longrightarrow> m k = Some e"
  by (metis domI map_le_def)

lemma fixed_ttl_exec:
  assumes "fixed_ttl g cm"
  shows "fixed_ttl (note_insert g c) (exec cm c)"
proof (cases c)
  case (CallSet ks now k data)
  show ?thesis
    unfolding fixed_ttl_def
  proof (intro allI impI)
    fix k' e
    assume h: "cache (exec cm c) k' = Some e"
    show "\<exists>t. note_insert g c k' = Some t \<and> Expiry e = t + CACHE_DURATION"
    proof (cases "k' = k")
      case True
      then show ?thesis using h CallSet by (auto simp: cache_Set)
    next
      case False
      then have "cache (checkCacheSize ks cm) k' = Some e"
        using h CallSet by (simp add: cache_Set)
      then have "cache cm k' = Some e"
        by (rule map_le_Some[OF checkCacheSize_le])
      then show ?thesis using assms False CallSet by (simp add: fixed_ttl_def)
    qed
  qed
next
  case (CallGet now k)
  then show ?thesis using assms by simp
next
  case (CallSweep ks now)
  show ?thesis
    unfolding fixed_ttl_def
  proof (intro allI impI)
    fix k' e
    assume "cache (exec cm c) k' = Some e"
    then have "cache (cleanExpiredCache ks now cm) k' = Some e"
      using CallSweep by simp
    then have "cache cm k' = Some e"
      by (rule map_le_Some[OF cleanExpiredCache_le])
    then show "\<exists>t. note_insert g c k' = Some t \<and> Expiry e = t + CACHE_DURATION"
      using assms CallSweep by (simp add: fixed_ttl_def)
  qed
qed

lemma card_Set_le:
  assumes "range_order ks (cache cm)"
  shows "card (dom (cache (Set ks now k p cm))) \<le> MAX_CACHE_SIZE + 1"
proof -
  have "finite (dom (cache (checkCacheSize ks cm)))"
    using range_order_finite[OF assms] checkCacheSize_le[of ks cm]
    by (metis finite_subset map_le_implies_dom_le)
  then have "card (dom (cache (Set ks now k p cm))) \<le> card (dom (cache (checkCacheSize ks cm))) + 1"
    by (simp add: cache_Set card_insert_if)
  then show ?thesis using card_checkCacheSize[OF assms] by simp
qed

lemma card_cleanExpiredCache_le:
  assumes "range_order ks (cache cm)"
  shows "card (dom (cache (cleanExpiredCache ks now cm))) \<le> card (dom (cache cm))"
  using range_order_finite[OF assms] cleanExpiredCache_le[of ks now cm]
  by (simp add: card_mono map_le_implies_dom_le)

lemma card_run_le:
  "card (dom (cache cm)) \<le> MAX_CACHE_SIZE + 1 \<Longrightarrow> ranges_ok cm cs \<Longrightarrow>
     card (dom (cache (run cm cs))) \<le> MAX_CACHE_SIZE + 1"
proof (induction cm cs rule: ranges_ok.induct)
  case (1 cm)
  then show ?case by (simp add: run_def)
next
  case (2 cm ks now k data cs)
  then show ?case using card_Set_le[of ks cm now k data] by (simp add: run_def)
next
  case (3 cm now k cs)
  then show ?case by (simp add: run_def)
next
  case (4 cm ks now cs)
  then show ?case
    using card_cleanExpiredCache_le[of ks cm now] by (simp add: run_def)
qed

section \<open>The claims\<close>

text \<open>
  Claim C1: starting from a new manager, the store holds at most \<^verbatim>\<open>MAX_CACHE_SIZE\<close>
  entries whenever a \<^verbatim>\<open>Set\<close> has returned. The code does not keep this bound:
  \<^verbatim>\<open>checkCacheSize\<close> runs before the insertion and returns at once while the size is
  at most \<^verbatim>\<open>MAX_CACHE_SIZE\<close>, so the 1001st \<^verbatim>\<open>Set\<close> of a new key leaves 1001 entries.
\<close>

theorem Set_exceeds_MAX_CACHE_SIZE:
  "ranges_ok NewCacheManager (fresh_calls 1001) \<and>
   card (dom (cache (run NewCacheManager (fresh_calls 1001)))) = 1001 \<and>
   \<not> card (dom (cache (run NewCacheManager (fresh_calls 1001)))) \<le> MAX_CACHE_SIZE"
  by (simp add: ranges_ok_fresh_calls fresh_1001 card_fresh_store MAX_CACHE_SIZE_def)

text \<open>
  Claim C2: a \<^verbatim>\<open>Get\<close> of \<open>k\<close> after \<^verbatim>\<open>Set(k, p)\<close> returns \<open>(p, true)\<close> while the clock is
  not after the stored expiry, and \<open>(nil, false)\<close> once the clock is more than
  \<^verbatim>\<open>CACHE_DURATION\<close> after the insertion.
\<close>

theorem Set_then_Get:
  "(now' \<le> now + CACHE_DURATION \<longrightarrow>
      fst (Get now' k (Set ks now k p cm)) = (p, True)) \<and>
   (now + CACHE_DURATION < now' \<longrightarrow>
      fst (Get now' k (Set ks now k p cm)) = ([], False))"
  by (simp add: Get_def cache_Set)

theorem Set_then_Get_witness:
  "(5::int) \<le> 5 + CACHE_DURATION \<and>
   fst (Get 5 ''/3/movie/550'' (Set [] 5 ''/3/movie/550'' [1, 2] NewCacheManager)) = ([1, 2], True) \<and>
   5 + CACHE_DURATION < 5 + CACHE_DURATION + (1::int) \<and>
   fst (Get (5 + CACHE_DURATION + 1) ''/3/movie/550''
          (Set [] 5 ''/3/movie/550'' [1, 2] NewCacheManager)) = ([], False)"
  using Set_then_Get [of 5 5 "''/3/movie/550''" "[]" "[1, 2]" NewCacheManager]
    Set_then_Get [of "5 + CACHE_DURATION + 1" 5 "''/3/movie/550''" "[]" "[1, 2]" NewCacheManager]
  by (simp add: CACHE_DURATION_def)

text \<open>
  Claim C3: the capacity pass at the top of \<^verbatim>\<open>Set\<close>. A store of at most
  \<^verbatim>\<open>MAX_CACHE_SIZE\<close> entries is left as it is. A larger one loses exactly
  \<open>size - MAX_CACHE_SIZE\<close> entries and keeps exactly \<^verbatim>\<open>MAX_CACHE_SIZE\<close>, the entries
  kept are unchanged, and no removed entry expires later than an entry that is kept
  (which of several entries with equal expiry goes depends on the range order).
\<close>

theorem checkCacheSize_spec:
  assumes "range_order ks (cache cm)"
  shows "(card (dom (cache cm)) \<le> MAX_CACHE_SIZE \<longrightarrow> checkCacheSize ks cm = cm) \<and>
         (MAX_CACHE_SIZE < card (dom (cache cm)) \<longrightarrow>
            cache (checkCacheSize ks cm) \<subseteq>\<^sub>m cache cm \<and>
            card (dom (cache cm) - dom (cache (checkCacheSize ks cm)))
              = card (dom (cache cm)) - MAX_CACHE_SIZE \<and>
            card (dom (cache (checkCacheSize ks cm))) = MAX_CACHE_SIZE \<and>
            (\<forall>k k' e e'. cache cm k = Some e \<and> cache (checkCacheSize ks cm) k = None \<and>
                cache (checkCacheSize ks cm) k' = Some e' \<longrightarrow> Expiry e \<le> Expiry e'))"
proof (intro conjI impI)
  assume "card (dom (cache cm)) \<le> MAX_CACHE_SIZE"
  then show "checkCacheSize ks cm = cm" by (rule checkCacheSize_small)
next
  show "cache (checkCacheSize ks cm) \<subseteq>\<^sub>m cache cm" by (rule checkCacheSize_le)
next
  assume big: "MAX_CACHE_SIZE < card (dom (cache cm))"
  show "card (dom (cache (checkCacheSize ks cm))) = MAX_CACHE_SIZE"
    using big by (simp add: card_checkCacheSize[OF assms])
next
  assume big: "MAX_CACHE_SIZE < card (dom (cache cm))"
  let ?m = "cache cm"
  have c: "cache (checkCacheSize ks cm) = (\<lambda>k. if k \<in> evicted ks ?m then None else ?m k)"
    by (rule cache_checkCacheSize_big[OF assms big])
  have "dom ?m - dom (cache (checkCacheSize ks cm)) = evicted ks ?m"
    using evicted_subset[OF assms] by (auto simp: c split: if_splits)
  then show "card (dom ?m - dom (cache (checkCacheSize ks cm))) = card (dom ?m) - MAX_CACHE_SIZE"
    by (simp add: card_evicted[OF assms])
next
  assume big: "MAX_CACHE_SIZE < card (dom (cache cm))"
  let ?m = "cache cm"
  have c: "cache (checkCacheSize ks cm) = (\<lambda>k. if k \<in> evicted ks ?m then None else ?m k)"
    by (rule cache_checkCacheSize_big[OF assms big])
  show "\<forall>k k' e e'. ?m k = Some e \<and> cache (checkCacheSize ks cm) k = None \<and>
           cache (checkCacheSize ks cm) k' = Some e' \<longrightarrow> Expiry e \<le> Expiry e'"
  proof (intro allI impI)
    fix k k' e e'
    assume h: "?m k = Some e \<and> cache (checkCacheSize ks cm) k = None \<and>
           cache (checkCacheSize ks cm) k' = Some e'"
    then have "k \<in> evicted ks ?m" by (auto simp: c split: if_splits)
    moreover have "k' \<notin> evicted ks ?m" "?m k' = Some e'"
      using h by (auto simp: c split: if_splits)
    ultimately show "Expiry e \<le> Expiry e'"
      using evicted_oldest[OF assms] h by blast
  qed
qed

theorem checkCacheSize_spec_witness:
  "range_order [''/a''] (cache \<lparr>cache = [''/a'' \<mapsto> \<lparr>Data = [1], Expiry = 10\<rparr>]\<rparr>) \<and>
   card (dom (cache \<lparr>cache = [''/a'' \<mapsto> \<lparr>Data = [1], Expiry = 10\<rparr>]\<rparr>)) \<le> MAX_CACHE_SIZE \<and>
   checkCacheSize [''/a''] \<lparr>cache = [''/a'' \<mapsto> \<lparr>Data = [1], Expiry = 10\<rparr>]\<rparr>
     = \<lparr>cache = [''/a'' \<mapsto> \<lparr>Data = [1], Expiry = 10\<rparr>]\<rparr> \<and>
   range_order (map key_of [0 ..< 1001]) (cache (run NewCacheManager (fresh_calls 1001))) \<and>
   MAX_CACHE_SIZE < card (dom (cache (run NewCacheManager (fresh_calls 1001)))) \<and>
   card (dom (cache (checkCacheSize (map key_of [0 ..< 1001])
                      (run NewCacheManager (fresh_calls 1001))))) = MAX_CACHE_SIZE \<and>
   card (dom (cache (run NewCacheManager (fresh_calls 1001)))
         - dom (cache (checkCacheSize (map key_of [0 ..< 1001])
                      (run NewCacheManager (fresh_calls 1001))))) = 1"
proof -
  let ?small = "\<lparr>cache = [''/a'' \<mapsto> \<lparr>Data = [1::byte], Expiry = 10\<rparr>]\<rparr>"
  let ?big = "run NewCacheManager (fresh_calls 1001)"
  have s1: "range_order [''/a''] (cache ?small)" by (simp add: range_order_def)
  have s2: "card (dom (cache ?small)) \<le> MAX_CACHE_SIZE" by (simp add: MAX_CACHE_SIZE_def)
  have b1: "range_order (map key_of [0 ..< 1001]) (cache ?big)"
    by (simp add: fresh_1001 range_order_fresh)
  have b2: "MAX_CACHE_SIZE < card (dom (cache ?big))"
    by (simp add: fresh_1001 card_fresh_store MAX_CACHE_SIZE_def)
  have b3: "card (dom (cache ?big)) - MAX_CACHE_SIZE = 1"
    by (simp add: fresh_1001 card_fresh_store MAX_CACHE_SIZE_def)
  show ?thesis
    using s1 s2 b1 b2 b3 checkCacheSize_spec [OF s1] checkCacheSize_spec [OF b1]
    by simp
qed

text \<open>
  Claim C4: after \<^verbatim>\<open>Set\<close> calls on \<open>MAX_CACHE_SIZE + d\<close> distinct keys at increasing
  times, the \<open>d\<close> earliest entries are gone and the latest \<^verbatim>\<open>MAX_CACHE_SIZE\<close> are
  retrievable. The code removes one entry fewer: with \<open>d = 1\<close> (1001 calls) the earliest
  entry is still in the store and \<^verbatim>\<open>Get\<close> still returns it, and with \<open>d = 2\<close> the second
  entry is.
\<close>

theorem oldest_not_evicted:
  "cache (run NewCacheManager (fresh_calls 1001)) (key_of 0)
     = Some \<lparr>Data = payload_of 0, Expiry = 0 + CACHE_DURATION\<rparr> \<and>
   fst (Get 1001 (key_of 0) (run NewCacheManager (fresh_calls 1001))) = (payload_of 0, True) \<and>
   cache (run NewCacheManager (fresh_calls 1002)) (key_of 0) = None \<and>
   fst (Get 1002 (key_of 1) (run NewCacheManager (fresh_calls 1002))) = (payload_of 1, True)"
proof -
  have "run NewCacheManager (fresh_calls 1002) = \<lparr>cache = fresh_store 1 1002\<rparr>"
    by (simp add: run_fresh_calls MAX_CACHE_SIZE_def)
  then show ?thesis
    by (simp add: fresh_1001 fresh_store_key Get_def CACHE_DURATION_def)
qed

text \<open>
  Claim C5: every entry of the store expires exactly \<^verbatim>\<open>CACHE_DURATION\<close> after the clock
  reading of the \<^verbatim>\<open>Set\<close> that inserted it. \<^verbatim>\<open>Get\<close>, \<^verbatim>\<open>Set\<close> (with its capacity pass)
  and the sweep all preserve this, whatever the range orders; a \<^verbatim>\<open>Get\<close> extends no
  expiry.
\<close>

theorem fixed_ttl_run:
  "fixed_ttl g cm \<Longrightarrow> fixed_ttl (insertion_time g cs) (run cm cs)"
proof (induction cs arbitrary: g cm)
  case Nil
  then show ?case by (simp add: insertion_time_def run_def)
next
  case (Cons c cs)
  have "fixed_ttl (note_insert g c) (exec cm c)"
    using Cons.prems by (rule fixed_ttl_exec)
  then have "fixed_ttl (insertion_time (note_insert g c) cs) (run (exec cm c) cs)"
    by (rule Cons.IH)
  then show ?case by (simp add: insertion_time_def run_def)
qed

theorem fixed_ttl_run_witness:
  "fixed_ttl Map.empty NewCacheManager \<and>
   cache (run NewCacheManager [CallSet [] 5 ''/a'' [1], CallGet 7 ''/a'', CallSweep [''/a''] 9]) ''/a''
     = Some \<lparr>Data = [1], Expiry = 5 + CACHE_DURATION\<rparr> \<and>
   insertion_time Map.empty [CallSet [] 5 ''/a'' [1], CallGet 7 ''/a'', CallSweep [''/a''] 9] ''/a''
     = Some 5 \<and>
   fixed_ttl (insertion_time Map.empty [CallSet [] 5 ''/a'' [1], CallGet 7 ''/a'', CallSweep [''/a''] 9])
     (run NewCacheManager [CallSet [] 5 ''/a'' [1], CallGet 7 ''/a'', CallSweep [''/a''] 9])"
proof -
  have h: "fixed_ttl Map.empty NewCacheManager"
    by (simp add: fixed_ttl_def NewCacheManager_def)
  have c: "cache (run NewCacheManager [CallSet [] 5 ''/a'' [1], CallGet 7 ''/a'', CallSweep [''/a''] 9]) ''/a''
     = Some \<lparr>Data = [1], Expiry = 5 + CACHE_DURATION\<rparr>"
    by (simp add: run_def cache_Set checkCacheSize_def NewCacheManager_def MAX_CACHE_SIZE_def
        cleanExpiredCache_def CACHE_DURATION_def)
  have i: "insertion_time Map.empty [CallSet [] 5 ''/a'' [1], CallGet 7 ''/a'', CallSweep [''/a''] 9] ''/a''
     = Some 5"
    by (simp add: insertion_time_def)
  show ?thesis
    using h c i
      fixed_ttl_run [OF h, of "[CallSet [] 5 ''/a'' [1], CallGet 7 ''/a'', CallSweep [''/a''] 9]"]
    by simp
qed

text \<open>
  Claim C6: \<^verbatim>\<open>Set(k, p1)\<close>, \<^verbatim>\<open>Set(k, p2)\<close>, \<^verbatim>\<open>Get(k)\<close>. When the store is within capacity
  at the second \<^verbatim>\<open>Set\<close> and the \<^verbatim>\<open>Get\<close> is not after the new expiry, the \<^verbatim>\<open>Get\<close> returns
  \<open>(p2, true)\<close> and the second \<^verbatim>\<open>Set\<close> leaves the key set, hence the size, as it was.
\<close>

theorem Set_overwrite:
  assumes "card (dom (cache (Set ks1 t1 k p1 cm))) \<le> MAX_CACHE_SIZE"
    and "t3 \<le> t2 + CACHE_DURATION"
  shows "fst (Get t3 k (Set ks2 t2 k p2 (Set ks1 t1 k p1 cm))) = (p2, True) \<and>
         dom (cache (Set ks2 t2 k p2 (Set ks1 t1 k p1 cm))) = dom (cache (Set ks1 t1 k p1 cm)) \<and>
         card (dom (cache (Set ks2 t2 k p2 (Set ks1 t1 k p1 cm))))
           = card (dom (cache (Set ks1 t1 k p1 cm)))"
proof -
  let ?cm1 = "Set ks1 t1 k p1 cm"
  have "k \<in> dom (cache ?cm1)" by (simp add: cache_Set)
  then have "dom (cache (Set ks2 t2 k p2 ?cm1)) = dom (cache ?cm1)"
    using assms(1) by (auto simp: cache_Set[of ks2] checkCacheSize_small)
  moreover have "fst (Get t3 k (Set ks2 t2 k p2 ?cm1)) = (p2, True)"
    using assms(2) by (simp add: Get_def cache_Set[of ks2])
  ultimately show ?thesis by simp
qed

theorem Set_overwrite_witness:
  "card (dom (cache (Set [] 1 ''/a'' [1] NewCacheManager))) \<le> MAX_CACHE_SIZE \<and>
   (3::int) \<le> 2 + CACHE_DURATION \<and>
   fst (Get 3 ''/a'' (Set [''/a''] 2 ''/a'' [2] (Set [] 1 ''/a'' [1] NewCacheManager))) = ([2], True) \<and>
   card (dom (cache (Set [''/a''] 2 ''/a'' [2] (Set [] 1 ''/a'' [1] NewCacheManager))))
     = card (dom (cache (Set [] 1 ''/a'' [1] NewCacheManager)))"
proof -
  have h1: "card (dom (cache (Set [] 1 ''/a'' [1] NewCacheManager))) \<le> MAX_CACHE_SIZE"
    by (simp add: cache_Set checkCacheSize_def NewCacheManager_def MAX_CACHE_SIZE_def)
  have h2: "(3::int) \<le> 2 + CACHE_DURATION" by (simp add: CACHE_DURATION_def)
  show ?thesis
    using h1 h2 Set_overwrite [OF h1 h2, of "[''/a'']" "[2]"] by simp
qed

text \<open>
  Claim C7: one sweep removes exactly the entries whose expiry is before the clock
  reading of the sweep; every other entry stays, with its payload and expiry.
\<close>

theorem cleanExpiredCache_exact:
  assumes "range_order ks (cache cm)"
  shows "cache (cleanExpiredCache ks now cm) k =
           (case cache cm k of
              None \<Rightarrow> None
            | Some e \<Rightarrow> if Expiry e < now then None else Some e)"
  using assms by (simp add: cache_cleanExpiredCache range_order_def)

theorem cleanExpiredCache_exact_witness:
  "range_order [''/old'', ''/new'']
     [''/old'' \<mapsto> \<lparr>Data = [1], Expiry = 10\<rparr>, ''/new'' \<mapsto> \<lparr>Data = [2], Expiry = 30\<rparr>] \<and>
   cache (cleanExpiredCache [''/old'', ''/new''] 20
     \<lparr>cache = [''/old'' \<mapsto> \<lparr>Data = [1], Expiry = 10\<rparr>, ''/new'' \<mapsto> \<lparr>Data = [2], Expiry = 30\<rparr>]\<rparr>) ''/old'' = None \<and>
   cache (cleanExpiredCache [''/old'', ''/new''] 20
     \<lparr>cache = [''/old'' \<mapsto> \<lparr>Data = [1], Expiry = 10\<rparr>, ''/new'' \<mapsto> \<lparr>Data = [2], Expiry = 30\<rparr>]\<rparr>) ''/new''
     = Some \<lparr>Data = [2], Expiry = 30\<rparr>"
proof -
  let ?m = "[''/old'' \<mapsto> \<lparr>Data = [1::byte], Expiry = 10\<rparr>, ''/new'' \<mapsto> \<lparr>Data = [2], Expiry = 30\<rparr>]"
  have ro: "range_order [''/old'', ''/new''] (cache \<lparr>cache = ?m\<rparr>)"
    by (auto simp: range_order_def)
  show ?thesis
    using ro cleanExpiredCache_exact [OF ro, of 20 "''/old''"]
      cleanExpiredCache_exact [OF ro, of 20 "''/new''"]
    by simp
qed

text \<open>
  Claim C8: \<^verbatim>\<open>Get\<close> leaves the manager as it found it. An entry that is present but
  expired is reported as a miss and is still in the store afterwards.
\<close>

theorem Get_frame:
  "snd (Get now k cm) = cm \<and>
   (\<forall>e. cache cm k = Some e \<and> Expiry e < now \<longrightarrow>
      fst (Get now k cm) = ([], False) \<and> cache (snd (Get now k cm)) k = Some e)"
  by (simp add: Get_def split: option.splits)

theorem Get_frame_witness:
  "cache \<lparr>cache = [''/a'' \<mapsto> \<lparr>Data = [7], Expiry = 10\<rparr>]\<rparr> ''/a'' = Some \<lparr>Data = [7], Expiry = 10\<rparr> \<and>
   Expiry \<lparr>Data = [7::byte], Expiry = 10\<rparr> < 11 \<and>
   fst (Get 11 ''/a'' \<lparr>cache = [''/a'' \<mapsto> \<lparr>Data = [7], Expiry = 10\<rparr>]\<rparr>) = ([], False) \<and>
   cache (snd (Get 11 ''/a'' \<lparr>cache = [''/a'' \<mapsto> \<lparr>Data = [7], Expiry = 10\<rparr>]\<rparr>)) ''/a''
     = Some \<lparr>Data = [7], Expiry = 10\<rparr>"
  using Get_frame [of 11 "''/a''" "\<lparr>cache = [''/a'' \<mapsto> \<lparr>Data = [7], Expiry = 10\<rparr>]\<rparr>"]
  by simp

text \<open>
  Claim C10: starting from a new manager, the store never holds more than
  \<open>MAX_CACHE_SIZE + 1\<close> entries after a call. The capacity pass leaves
  \<open>min size MAX_CACHE_SIZE\<close> entries, the insertion adds at most one, the sweep adds
  none and \<^verbatim>\<open>Get\<close> changes nothing.
\<close>

theorem size_at_most_MAX_plus_one:
  "(ranges_ok NewCacheManager cs \<longrightarrow>
      card (dom (cache (run NewCacheManager cs))) \<le> MAX_CACHE_SIZE + 1) \<and>
   (range_order ks (cache cm) \<longrightarrow>
      card (dom (cache (checkCacheSize ks cm))) = min (card (dom (cache cm))) MAX_CACHE_SIZE \<and>
      card (dom (cache (Set ks now k p cm))) \<le> MAX_CACHE_SIZE + 1 \<and>
      card (dom (cache (cleanExpiredCache ks now cm))) \<le> card (dom (cache cm))) \<and>
   cache (snd (Get now k cm)) = cache cm"
proof (intro conjI impI)
  assume "ranges_ok NewCacheManager cs"
  moreover have "card (dom (cache NewCacheManager)) \<le> MAX_CACHE_SIZE + 1"
    by (simp add: NewCacheManager_def)
  ultimately show "card (dom (cache (run NewCacheManager cs))) \<le> MAX_CACHE_SIZE + 1"
    using card_run_le by blast
next
  assume "range_order ks (cache cm)"
  then show "card (dom (cache (checkCacheSize ks cm))) = min (card (dom (cache cm))) MAX_CACHE_SIZE"
    by (rule card_checkCacheSize)
next
  assume "range_order ks (cache cm)"
  then show "card (dom (cache (Set ks now k p cm))) \<le> MAX_CACHE_SIZE + 1"
    by (rule card_Set_le)
next
  assume "range_order ks (cache cm)"
  then show "card (dom (cache (cleanExpiredCache ks now cm))) \<le> card (dom (cache cm))"
    by (rule card_cleanExpiredCache_le)
next
  show "cache (snd (Get now k cm)) = cache cm" by simp
qed

theorem size_at_most_MAX_plus_one_witness:
  "ranges_ok NewCacheManager (fresh_calls 1002) \<and>
   card (dom (cache (run NewCacheManager (fresh_calls 1002)))) \<le> MAX_CACHE_SIZE + 1 \<and>
   range_order (map key_of [0 ..< 1001]) (cache (run NewCacheManager (fresh_calls 1001))) \<and>
   card (dom (cache (checkCacheSize (map key_of [0 ..< 1001])
           (run NewCacheManager (fresh_calls 1001))))) = MAX_CACHE_SIZE \<and>
   card (dom (cache (Set (map key_of [0 ..< 1001]) 1001 (key_of 1001) (payload_of 1001)
           (run NewCacheManager (fresh_calls 1001))))) \<le> MAX_CACHE_SIZE + 1"
proof -
  let ?cm = "run NewCacheManager (fresh_calls 1001)"
  let ?ks = "map key_of [0 ..< 1001]"
  have a: "ranges_ok NewCacheManager (fresh_calls 1002)" by (rule ranges_ok_fresh_calls)
  have b: "range_order ?ks (cache ?cm)"
    by (simp add: fresh_1001 range_order_fresh)
  have c: "min (card (dom (cache ?cm))) MAX_CACHE_SIZE = MAX_CACHE_SIZE"
    by (simp add: fresh_1001 card_fresh_store MAX_CACHE_SIZE_def)
  note t = size_at_most_MAX_plus_one [of "fresh_calls 1002" ?ks ?cm 1001 "key_of 1001" "payload_of 1001"]
  have "card (dom (cache (run NewCacheManager (fresh_calls 1002)))) \<le> MAX_CACHE_SIZE + 1"
    using t a by blast
  moreover have "card (dom (cache (checkCacheSize ?ks ?cm))) = MAX_CACHE_SIZE"
    using t b c by metis
  moreover have "card (dom (cache (Set ?ks 1001 (key_of 1001) (payload_of 1001) ?cm)))
      \<le> MAX_CACHE_SIZE + 1"
    using t b by blast
  ultimately show ?thesis using a b by blast
qed

end
